theory Spec2Isabelle
  imports Main
begin

section \<open>The cancelable task of gorace.go\<close>

text \<open>
  The package is one struct, \<open>goCancelable\<close>, with a mutex, a channel of capacity one and
  three fields read and written only under the mutex. Its methods are run by several
  goroutines at once, so the embedding is a transition system: every goroutine has a
  program point in the method it is executing, one source statement is one atomic step,
  and a schedule (a list of goroutine ids) picks which goroutine moves next. Every access
  to \<open>canceled\<close>, \<open>started\<close> and \<open>lastResult\<close> in the source is made with \<open>gc.mu\<close> held and
  channel operations are atomic in Go, so interleaving whole statements loses no behaviour.

  What the Go runtime does is written out in the steps: \<open>Lock\<close> blocks while the mutex is
  held, a send on a full channel blocks, a send on a closed channel and a second \<open>close\<close>
  panic, a receive on a closed and drained channel returns at once, deferred calls run
  when their function returns or panics, and a panic that reaches the top of a goroutine
  with no \<open>recover\<close> terminates the process. The runtime's detection of a process in which
  every goroutine is blocked is left out: such a process simply makes no further step.
\<close>

subsection \<open>Values, channel, struct\<close>

type_synonym tid = nat

text \<open>\<open>interface{}\<close> values; \<open>VNil\<close> is the nil interface, the zero value of the type.\<close>

datatype val = VNil | VBool bool | VInt int

text \<open>\<open>chan interface{}\<close>: the buffered values (oldest first), the capacity and the closed flag.\<close>

record chan =
  buf :: "val list"
  cap :: nat
  closed :: bool

definition make_chan :: "nat \<Rightarrow> chan" where
  "make_chan n = \<lparr>buf = [], cap = n, closed = False\<rparr>"

text \<open>
  What a goroutine that is given the task can do with it: call a method of the
  \<open>GoCancelable\<close> interface, receive once from the channel \<open>Receive()\<close> returns
  (\<open><-gc.Receive()\<close>; a \<open>range\<close> loop is a run of these), start another goroutine
  (\<open>go func() {...}()\<close>), or panic. A handler is such a program. The context argument is
  passed through and never inspected by the package, so it is left out. A program is a
  list of these commands. In the source, what a goroutine does next may depend on the
  values handed back to it; each of its runs is the run of one such list, so a statement
  about all lists and all schedules is a statement about all handlers and callers.
\<close>

datatype cmd =
    CallCancel
  | CallSend val
  | CallStart
  | CallStartBackground
  | CallLastResult
  | CallIsCanceled
  | Recv
  | Go "cmd list"
  | Panic

record goCancelable =
  handler :: "cmd list"
  send :: chan
  canceled :: bool
  started :: bool
  lastResult :: val
  mu :: "tid option"

text \<open>\<open>GoRace\<close> (lines 88-91): a channel of capacity 1, every other field at its zero value.\<close>

definition GoRace :: "cmd list \<Rightarrow> goCancelable" where
  "GoRace h = \<lparr>handler = h, send = make_chan 1, canceled = False, started = False,
     lastResult = VNil, mu = None\<rparr>"

subsection \<open>Goroutines\<close>

text \<open>Program points, named after the method and the statement about to be executed.\<close>

datatype pc =
    Idle
  | Cancel_Lock | cancel_If | cancel_Set | cancel_Close | Cancel_Unlock bool
  | IsCanceled_Lock | IsCanceled_Read | IsCanceled_Unlock bool
  | Send_Lock val | Send_If val | Send_Store val | Send_Write val | Send_Unlock
  | Start_Lock | Start_If | Start_Set | Start_Go | Start_Unlock
  | LastResult_Lock | LastResult_Read | LastResult_Unlock val
  | Panic_Unlock

text \<open>
  The goroutine that \<open>Start\<close> launches runs \<open>defer gc.Cancel()\<close> and then the handler;
  \<open>DeferPending\<close> says the deferred call has not run yet, \<open>DeferRan\<close> that it has been
  taken off the defer stack. Every other goroutine has \<open>NoDefer\<close>.
\<close>

datatype dstate = NoDefer | DeferPending | DeferRan

record thread =
  pc :: pc
  todo :: "cmd list"
  defer_Cancel :: dstate
  panicking :: bool

definition goroutine :: "cmd list \<Rightarrow> thread" where
  "goroutine p = \<lparr>pc = Idle, todo = p, defer_Cancel = NoDefer, panicking = False\<rparr>"

text \<open>\<open>go func(ctx, gc) { defer gc.Cancel(); gc.handler(ctx, gc) }(ctx, gc)\<close> (lines 152-155).\<close>

definition handler_goroutine :: "cmd list \<Rightarrow> thread" where
  "handler_goroutine h = \<lparr>pc = Idle, todo = h, defer_Cancel = DeferPending, panicking = False\<rparr>"

text \<open>\<open>go gc.Start(ctx)\<close> (line 162).\<close>

definition Start_goroutine :: thread where
  "Start_goroutine = \<lparr>pc = Start_Lock, todo = [], defer_Cancel = NoDefer, panicking = False\<rparr>"

text \<open>What a call or a receive handed back to the goroutine that made it.\<close>

datatype ret =
    RetCancel bool
  | RetIsCanceled bool
  | RetSend
  | RetStart
  | RetStartBackground
  | RetLastResult val
  | RetRecv val bool

text \<open>The log of what happened, most recent event first.\<close>

datatype event =
    EvSetCanceled tid
  | EvClose tid
  | EvStore tid val
  | EvChanSend tid val
  | EvSetStarted tid
  | EvLaunch tid
  | EvRet tid ret
  | EvPanic tid
  | EvCrash tid

datatype outcome =
    Blocked
  | Finished
  | Crash
  | Step thread goCancelable "event list" "thread list"

text \<open>A panic inside a method: the rest of the goroutine's program is abandoned and the
  deferred \<open>gc.mu.Unlock()\<close> of the method runs next.\<close>

definition raise_locked :: "tid \<Rightarrow> thread \<Rightarrow> goCancelable \<Rightarrow> outcome" where
  "raise_locked t th g =
     Step (th\<lparr>pc := Panic_Unlock, todo := [], panicking := True\<rparr>) g [EvPanic t] []"

text \<open>\<open>gc.mu.Lock()\<close>: blocks while another goroutine holds the mutex.\<close>

definition Lock :: "tid \<Rightarrow> pc \<Rightarrow> thread \<Rightarrow> goCancelable \<Rightarrow> outcome" where
  "Lock t nxt th g =
     (if mu g = None then Step (th\<lparr>pc := nxt\<rparr>) (g\<lparr>mu := Some t\<rparr>) [] [] else Blocked)"

text \<open>The deferred \<open>gc.mu.Unlock()\<close>, after which the method returns \<open>r\<close>.\<close>

definition Unlock :: "tid \<Rightarrow> ret \<Rightarrow> thread \<Rightarrow> goCancelable \<Rightarrow> outcome" where
  "Unlock t r th g = Step (th\<lparr>pc := Idle\<rparr>) (g\<lparr>mu := None\<rparr>) [EvRet t r] []"

text \<open>Between two calls: the next command of the program, or the end of the goroutine.\<close>

fun next_cmd :: "tid \<Rightarrow> thread \<Rightarrow> goCancelable \<Rightarrow> outcome" where
  "next_cmd t th g =
     (case todo th of
        [] \<Rightarrow>
          \<comment> \<open>the program has returned or panicked: a deferred \<open>gc.Cancel()\<close> (line 153) runs\<close>
          (if defer_Cancel th = DeferPending
           then Step (th\<lparr>pc := Cancel_Lock, defer_Cancel := DeferRan\<rparr>) g [] []
           else if panicking th then Crash else Finished)
      | CallCancel # cs \<Rightarrow> Step (th\<lparr>pc := Cancel_Lock, todo := cs\<rparr>) g [] []
      | CallSend v # cs \<Rightarrow> Step (th\<lparr>pc := Send_Lock v, todo := cs\<rparr>) g [] []
      | CallStart # cs \<Rightarrow> Step (th\<lparr>pc := Start_Lock, todo := cs\<rparr>) g [] []
      | CallStartBackground # cs \<Rightarrow>
          \<comment> \<open>StartBackground, lines 161-164: \<open>go gc.Start(ctx)\<close>, \<open>return gc\<close>\<close>
          Step (th\<lparr>todo := cs\<rparr>) g [EvRet t RetStartBackground] [Start_goroutine]
      | CallLastResult # cs \<Rightarrow> Step (th\<lparr>pc := LastResult_Lock, todo := cs\<rparr>) g [] []
      | CallIsCanceled # cs \<Rightarrow> Step (th\<lparr>pc := IsCanceled_Lock, todo := cs\<rparr>) g [] []
      | Recv # cs \<Rightarrow>
          \<comment> \<open>Receive, lines 140-142, and one receive from the channel it returns\<close>
          (case buf (send g) of
             v # vs \<Rightarrow> Step (th\<lparr>todo := cs\<rparr>) (g\<lparr>send := (send g)\<lparr>buf := vs\<rparr>\<rparr>)
                         [EvRet t (RetRecv v True)] []
           | [] \<Rightarrow>
               (if closed (send g) then Step (th\<lparr>todo := cs\<rparr>) g [EvRet t (RetRecv VNil False)] []
                else Blocked))
      | Go p # cs \<Rightarrow> Step (th\<lparr>todo := cs\<rparr>) g [] [goroutine p]
      | Panic # cs \<Rightarrow> Step (th\<lparr>todo := [], panicking := True\<rparr>) g [EvPanic t] [])"

text \<open>One statement of goroutine \<open>t\<close>.\<close>

fun tstep :: "tid \<Rightarrow> thread \<Rightarrow> goCancelable \<Rightarrow> outcome" where
  "tstep t th g =
     (case pc th of
        Idle \<Rightarrow> next_cmd t th g
      \<comment> \<open>Cancel, lines 104-108, and cancel, lines 112-120\<close>
      | Cancel_Lock \<Rightarrow> Lock t cancel_If th g
      | cancel_If \<Rightarrow>
          Step (th\<lparr>pc := (if \<not> canceled g then cancel_Set else Cancel_Unlock False)\<rparr>) g [] []
      | cancel_Set \<Rightarrow> Step (th\<lparr>pc := cancel_Close\<rparr>) (g\<lparr>canceled := True\<rparr>) [EvSetCanceled t] []
      | cancel_Close \<Rightarrow>
          (if closed (send g) then raise_locked t th g
           else Step (th\<lparr>pc := Cancel_Unlock True\<rparr>) (g\<lparr>send := (send g)\<lparr>closed := True\<rparr>\<rparr>)
                  [EvClose t] [])
      | Cancel_Unlock r \<Rightarrow> Unlock t (RetCancel r) th g
      \<comment> \<open>IsCanceled, lines 123-127\<close>
      | IsCanceled_Lock \<Rightarrow> Lock t IsCanceled_Read th g
      | IsCanceled_Read \<Rightarrow> Step (th\<lparr>pc := IsCanceled_Unlock (canceled g)\<rparr>) g [] []
      | IsCanceled_Unlock r \<Rightarrow> Unlock t (RetIsCanceled r) th g
      \<comment> \<open>Send, lines 130-137\<close>
      | Send_Lock v \<Rightarrow> Lock t (Send_If v) th g
      | Send_If v \<Rightarrow> Step (th\<lparr>pc := (if \<not> canceled g then Send_Store v else Send_Unlock)\<rparr>) g [] []
      | Send_Store v \<Rightarrow> Step (th\<lparr>pc := Send_Write v\<rparr>) (g\<lparr>lastResult := v\<rparr>) [EvStore t v] []
      | Send_Write v \<Rightarrow>
          (if closed (send g) then raise_locked t th g
           else if length (buf (send g)) < cap (send g)
           then Step (th\<lparr>pc := Send_Unlock\<rparr>) (g\<lparr>send := (send g)\<lparr>buf := buf (send g) @ [v]\<rparr>\<rparr>)
                  [EvChanSend t v] []
           else Blocked)
      | Send_Unlock \<Rightarrow> Unlock t RetSend th g
      \<comment> \<open>Start, lines 146-158\<close>
      | Start_Lock \<Rightarrow> Lock t Start_If th g
      | Start_If \<Rightarrow>
          Step (th\<lparr>pc := (if \<not> canceled g \<and> \<not> started g then Start_Set else Start_Unlock)\<rparr>) g [] []
      | Start_Set \<Rightarrow> Step (th\<lparr>pc := Start_Go\<rparr>) (g\<lparr>started := True\<rparr>) [EvSetStarted t] []
      | Start_Go \<Rightarrow> Step (th\<lparr>pc := Start_Unlock\<rparr>) g [EvLaunch t] [handler_goroutine (handler g)]
      | Start_Unlock \<Rightarrow> Unlock t RetStart th g
      \<comment> \<open>LastResult, lines 168-172\<close>
      | LastResult_Lock \<Rightarrow> Lock t LastResult_Read th g
      | LastResult_Read \<Rightarrow> Step (th\<lparr>pc := LastResult_Unlock (lastResult g)\<rparr>) g [] []
      | LastResult_Unlock v \<Rightarrow> Unlock t (RetLastResult v) th g
      \<comment> \<open>a method that panicked: its deferred Unlock runs, the panic goes on to the caller\<close>
      | Panic_Unlock \<Rightarrow> Step (th\<lparr>pc := Idle\<rparr>) (g\<lparr>mu := None\<rparr>) [] [])"

subsection \<open>The process\<close>

record sys =
  gc :: goCancelable
  threads :: "thread list"
  crashed :: bool
  trace :: "event list"

text \<open>
  One step of goroutine \<open>t\<close>; \<open>None\<close> when it cannot move (it is blocked, it has ended, the
  process has terminated, or there is no such goroutine). New goroutines get the next ids.
\<close>

definition step :: "tid \<Rightarrow> sys \<Rightarrow> sys option" where
  "step t s =
     (if crashed s \<or> length (threads s) \<le> t then None
      else case tstep t (threads s ! t) (gc s) of
        Blocked \<Rightarrow> None
      | Finished \<Rightarrow> None
      | Crash \<Rightarrow> Some (s\<lparr>crashed := True, trace := EvCrash t # trace s\<rparr>)
      | Step th' g' evs new \<Rightarrow>
          Some (s\<lparr>gc := g', threads := (threads s)[t := th'] @ new, trace := evs @ trace s\<rparr>))"

text \<open>Running a schedule; a goroutine that cannot move when it is picked is skipped.\<close>

fun exec :: "tid list \<Rightarrow> sys \<Rightarrow> sys" where
  "exec [] s = s"
| "exec (t # ts) s = exec ts (case step t s of None \<Rightarrow> s | Some s' \<Rightarrow> s')"

text \<open>A process that has created one task with handler \<open>h\<close> and runs the programs \<open>ps\<close>,
  goroutine \<open>i\<close> running \<open>ps ! i\<close>.\<close>

definition boot :: "cmd list list \<Rightarrow> cmd list \<Rightarrow> sys" where
  "boot ps h = \<lparr>gc = GoRace h, threads = map goroutine ps, crashed = False, trace = []\<rparr>"

definition run :: "cmd list list \<Rightarrow> cmd list \<Rightarrow> tid list \<Rightarrow> sys" where
  "run ps h sched = exec sched (boot ps h)"

section \<open>Invariants\<close>

subsection \<open>Reading the log\<close>

text \<open>How often \<open>close(gc.send)\<close> was executed.\<close>

fun closes :: "event list \<Rightarrow> nat" where
  "closes [] = 0"
| "closes (EvClose t # es) = Suc (closes es)"
| "closes (e # es) = closes es"

text \<open>How often \<open>gc.started = true\<close> was executed, and how often the handler was launched.\<close>

fun starts :: "event list \<Rightarrow> nat" where
  "starts [] = 0"
| "starts (EvSetStarted t # es) = Suc (starts es)"
| "starts (e # es) = starts es"

fun launches :: "event list \<Rightarrow> nat" where
  "launches [] = 0"
| "launches (EvLaunch t # es) = Suc (launches es)"
| "launches (e # es) = launches es"

text \<open>How many calls of \<open>Cancel\<close> have returned true.\<close>

fun true_Cancels :: "event list \<Rightarrow> nat" where
  "true_Cancels [] = 0"
| "true_Cancels (EvRet t (RetCancel True) # es) = Suc (true_Cancels es)"
| "true_Cancels (e # es) = true_Cancels es"


text \<open>The values \<open>Send\<close> has accepted (stored in \<open>lastResult\<close>), most recent first, and the
  most recent of them, the nil interface when there is none.\<close>

fun stored :: "event list \<Rightarrow> val list" where
  "stored [] = []"
| "stored (EvStore t v # es) = v # stored es"
| "stored (e # es) = stored es"

fun last_stored :: "event list \<Rightarrow> val" where
  "last_stored [] = VNil"
| "last_stored (EvStore t v # es) = v"
| "last_stored (e # es) = last_stored es"


fun cancel_logged :: "event list \<Rightarrow> bool" where
  "cancel_logged [] = False"
| "cancel_logged (EvSetCanceled t # es) = True"
| "cancel_logged (e # es) = cancel_logged es"

text \<open>No value was put on the channel at a time when \<open>canceled\<close> had already been set.\<close>

fun sends_precede_cancel :: "event list \<Rightarrow> bool" where
  "sends_precede_cancel [] = True"
| "sends_precede_cancel (EvChanSend t v # es) = (\<not> cancel_logged es \<and> sends_precede_cancel es)"
| "sends_precede_cancel (e # es) = sends_precede_cancel es"

text \<open>Every value put on the channel was the value of \<open>lastResult\<close> at that time.\<close>

fun stores_precede_sends :: "event list \<Rightarrow> bool" where
  "stores_precede_sends [] = True"
| "stores_precede_sends (EvChanSend t v # es) = (last_stored es = v \<and> stores_precede_sends es)"
| "stores_precede_sends (e # es) = stores_precede_sends es"

text \<open>Events that touch neither a field of the task nor one of the counts above.\<close>

fun quiet :: "event \<Rightarrow> bool" where
  "quiet (EvRet t (RetRecv v b)) = True"
| "quiet (EvRet t RetStartBackground) = True"
| "quiet (EvPanic t) = True"
| "quiet (EvCrash t) = True"
| "quiet e = False"

subsection \<open>The mutex\<close>

text \<open>The program points at which a goroutine holds \<open>gc.mu\<close>, and those at which it waits
  for it.\<close>

fun holds :: "pc \<Rightarrow> bool" where
  "holds Idle = False"
| "holds Cancel_Lock = False"
| "holds IsCanceled_Lock = False"
| "holds (Send_Lock v) = False"
| "holds Start_Lock = False"
| "holds LastResult_Lock = False"
| "holds p = True"


fun in_Cancel :: "pc \<Rightarrow> bool" where
  "in_Cancel Cancel_Lock = True"
| "in_Cancel cancel_If = True"
| "in_Cancel cancel_Set = True"
| "in_Cancel cancel_Close = True"
| "in_Cancel (Cancel_Unlock r) = True"
| "in_Cancel p = False"

text \<open>The program point of the goroutine that holds the mutex, \<open>Idle\<close> when it is free.\<close>

definition holder_pc :: "sys \<Rightarrow> pc" where
  "holder_pc s = (case mu (gc s) of None \<Rightarrow> Idle | Some t \<Rightarrow> pc (threads s ! t))"

definition mutex :: "sys \<Rightarrow> bool" where
  "mutex s =
     ((\<forall>t < length (threads s). holds (pc (threads s ! t)) = (mu (gc s) = Some t))
      \<and> (case mu (gc s) of None \<Rightarrow> True | Some t \<Rightarrow> t < length (threads s)))"

subsection \<open>What the mutex protects\<close>

definition sync_closed :: "goCancelable \<Rightarrow> bool" where
  "sync_closed g = (canceled g = closed (send g))"

definition sync_launch :: "goCancelable \<Rightarrow> event list \<Rightarrow> bool" where
  "sync_launch g tr = (launches tr = (if started g then 1 else 0))"

definition sync_buf :: "goCancelable \<Rightarrow> bool" where
  "sync_buf g = (buf (send g) = [] \<or> buf (send g) = [lastResult g])"

definition sync_ret :: "goCancelable \<Rightarrow> event list \<Rightarrow> bool" where
  "sync_ret g tr = (true_Cancels tr = (if canceled g then 1 else 0))"

text \<open>
  What is true of the task while the goroutine holding the mutex is at program point \<open>p\<close>
  (\<open>Idle\<close>: the mutex is free). The four relations above hold except inside the critical
  section that is re-establishing them.
\<close>

fun lock_inv :: "pc \<Rightarrow> goCancelable \<Rightarrow> event list \<Rightarrow> bool" where
  "lock_inv cancel_Set g tr =
     (\<not> canceled g \<and> \<not> closed (send g) \<and> true_Cancels tr = 0 \<and> sync_launch g tr \<and> sync_buf g)"
| "lock_inv cancel_Close g tr =
     (canceled g \<and> \<not> closed (send g) \<and> true_Cancels tr = 0 \<and> sync_launch g tr \<and> sync_buf g)"
| "lock_inv (Cancel_Unlock r) g tr =
     (canceled g \<and> closed (send g) \<and> true_Cancels tr = (if r then 0 else 1)
      \<and> sync_launch g tr \<and> sync_buf g)"
| "lock_inv (Send_Store v) g tr =
     (\<not> canceled g \<and> \<not> closed (send g) \<and> sync_ret g tr \<and> sync_launch g tr \<and> sync_buf g)"
| "lock_inv (Send_Write v) g tr =
     (\<not> canceled g \<and> \<not> closed (send g) \<and> sync_ret g tr \<and> sync_launch g tr \<and> lastResult g = v)"
| "lock_inv Start_Set g tr =
     (\<not> canceled g \<and> \<not> started g \<and> sync_closed g \<and> sync_ret g tr \<and> sync_launch g tr
      \<and> sync_buf g)"
| "lock_inv Start_Go g tr =
     (started g \<and> launches tr = 0 \<and> sync_closed g \<and> sync_ret g tr \<and> sync_buf g)"
| "lock_inv Panic_Unlock g tr = False"
| "lock_inv p g tr = (sync_closed g \<and> sync_ret g tr \<and> sync_launch g tr \<and> sync_buf g)"

text \<open>What is true of the task and the log at every moment.\<close>

definition glob_inv :: "goCancelable \<Rightarrow> event list \<Rightarrow> bool" where
  "glob_inv g tr =
     (closes tr = (if closed (send g) then 1 else 0)
      \<and> starts tr = (if started g then 1 else 0)
      \<and> cancel_logged tr = canceled g
      \<and> last_stored tr = lastResult g
      \<and> sends_precede_cancel tr
      \<and> stores_precede_sends tr
      \<and> cap (send g) = 1 \<and> length (buf (send g)) \<le> 1)"

text \<open>A goroutine whose deferred \<open>gc.Cancel()\<close> has been taken off the defer stack is inside
  that call, or the call has returned and the task is cancelled.\<close>

definition thr_inv :: "goCancelable \<Rightarrow> thread \<Rightarrow> bool" where
  "thr_inv g th =
     (if defer_Cancel th = DeferRan
      then todo th = [] \<and> (if pc th = Idle then canceled g \<and> closed (send g) else in_Cancel (pc th))
      else True)"

definition INV :: "sys \<Rightarrow> bool" where
  "INV s = (mutex s \<and> lock_inv (holder_pc s) (gc s) (trace s) \<and> glob_inv (gc s) (trace s)
     \<and> list_all (thr_inv (gc s)) (threads s))"

text \<open>A receive that took the one buffered value.\<close>

definition pop :: "goCancelable \<Rightarrow> goCancelable" where
  "pop g = g\<lparr>send := (send g)\<lparr>buf := tl (buf (send g))\<rparr>\<rparr>"

definition grows :: "goCancelable \<Rightarrow> goCancelable \<Rightarrow> bool" where
  "grows g g' = ((canceled g \<longrightarrow> canceled g') \<and> (closed (send g) \<longrightarrow> closed (send g')))"

text \<open>What one step of goroutine \<open>t\<close> has to establish; \<open>hp k\<close> is the program point of
  goroutine \<open>k\<close> before the step.\<close>

definition local_ok ::
  "tid \<Rightarrow> (tid \<Rightarrow> pc) \<Rightarrow> goCancelable \<Rightarrow> event list \<Rightarrow> thread \<Rightarrow> goCancelable \<Rightarrow> event list
     \<Rightarrow> thread list \<Rightarrow> bool"
  where
  "local_ok t hp g tr th' g' evs new =
     (holds (pc th') = (mu g' = Some t)
      \<and> (mu g' = mu g \<or> mu g = None \<and> mu g' = Some t \<or> mu g = Some t \<and> mu g' = None)
      \<and> list_all (\<lambda>n. \<not> holds (pc n) \<and> defer_Cancel n \<noteq> DeferRan) new
      \<and> lock_inv (case mu g' of None \<Rightarrow> Idle | Some k \<Rightarrow> if k = t then pc th' else hp k) g'
          (evs @ tr)
      \<and> glob_inv g' (evs @ tr)
      \<and> thr_inv g' th'
      \<and> grows g g')"


section \<open>The invariants hold in every reachable state\<close>

lemmas sync_defs = sync_ret_def sync_launch_def sync_buf_def sync_closed_def

lemma INV_boot: "INV (boot ps h)"
  by (auto simp: INV_def boot_def mutex_def holder_pc_def GoRace_def make_chan_def glob_inv_def
      goroutine_def thr_inv_def list_all_iff sync_defs)

lemma quiet_counts:
  "quiet e \<Longrightarrow> closes (e # tr) = closes tr \<and> launches (e # tr) = launches tr
     \<and> starts (e # tr) = starts tr
     \<and> true_Cancels (e # tr) = true_Cancels tr \<and> last_stored (e # tr) = last_stored tr
     \<and> cancel_logged (e # tr) = cancel_logged tr
     \<and> sends_precede_cancel (e # tr) = sends_precede_cancel tr
     \<and> stores_precede_sends (e # tr) = stores_precede_sends tr"
  by (cases e rule: quiet.cases) simp_all

lemma lock_inv_quiet1: "quiet e \<Longrightarrow> lock_inv q g (e # tr) = lock_inv q g tr"
  by (cases q) (simp_all add: sync_ret_def sync_launch_def quiet_counts)

lemma lock_inv_quiet: "list_all quiet evs \<Longrightarrow> lock_inv q g (evs @ tr) = lock_inv q g tr"
  by (induction evs) (simp_all add: lock_inv_quiet1)

lemma glob_inv_quiet1: "quiet e \<Longrightarrow> glob_inv g (e # tr) = glob_inv g tr"
  by (simp add: glob_inv_def quiet_counts)

lemma glob_inv_quiet: "list_all quiet evs \<Longrightarrow> glob_inv g (evs @ tr) = glob_inv g tr"
  by (induction evs) (simp_all add: glob_inv_quiet1)

lemma lock_inv_pop: "lock_inv q g tr \<Longrightarrow> lock_inv q (pop g) tr"
  by (cases q) (auto simp: pop_def sync_defs)

lemma glob_inv_pop: "glob_inv g tr \<Longrightarrow> glob_inv (pop g) tr"
  by (auto simp: pop_def glob_inv_def)

lemma thr_inv_pop: "thr_inv (pop g) th = thr_inv g th"
  by (simp add: pop_def thr_inv_def)

lemma next_cmd_effect:
  assumes "next_cmd t th g = Step th' g' evs new" and "pc th = Idle"
  shows "(g' = g \<or> g' = pop g) \<and> list_all quiet evs \<and> \<not> holds (pc th')
    \<and> list_all (\<lambda>n. \<not> holds (pc n) \<and> defer_Cancel n \<noteq> DeferRan) new"
proof (cases "todo th")
  case Nil
  with assms show ?thesis by (simp split: if_splits) auto
next
  case (Cons c cs)
  with assms show ?thesis
    by (cases c)
      (auto simp: pop_def goroutine_def Start_goroutine_def split: list.splits if_splits)
qed

lemma next_cmd_thr_inv:
  assumes "next_cmd t th g = Step th' g' evs new" and "thr_inv g th" and "pc th = Idle"
  shows "thr_inv g th'"
proof (cases "todo th")
  case Nil
  with assms show ?thesis by (auto simp: thr_inv_def split: if_splits)
next
  case (Cons c cs)
  with assms show ?thesis
    by (cases c) (auto simp: thr_inv_def split: list.splits if_splits)
qed

lemma thr_inv_grows: "grows g g' \<Longrightarrow> thr_inv g th \<Longrightarrow> thr_inv g' th"
  by (auto simp: grows_def thr_inv_def split: if_splits)

lemma grows_refl [simp]: "grows g g"
  by (simp add: grows_def)

lemma grows_pop [simp]: "grows g (pop g)"
  by (simp add: grows_def pop_def)

lemma Lock_effect:
  "Lock t nxt th g = Step th' g' evs new \<Longrightarrow>
     mu g = None \<and> g' = g\<lparr>mu := Some t\<rparr> \<and> th' = th\<lparr>pc := nxt\<rparr> \<and> evs = [] \<and> new = []"
  by (simp add: Lock_def split: if_splits)

lemma lock_inv_mu [simp]: "lock_inv q (g\<lparr>mu := m\<rparr>) tr = lock_inv q g tr"
  by (cases q) (simp_all add: sync_defs)

lemma glob_inv_mu [simp]: "glob_inv (g\<lparr>mu := m\<rparr>) tr = glob_inv g tr"
  by (simp add: glob_inv_def)

lemma thr_inv_mu [simp]: "thr_inv (g\<lparr>mu := m\<rparr>) th = thr_inv g th"
  by (simp add: thr_inv_def)

lemma grows_mu [simp]: "grows g (g\<lparr>mu := m\<rparr>)"
  by (simp add: grows_def)


lemma mu_pop [simp]: "mu (pop g) = mu g"
  by (simp add: pop_def)

text \<open>The goroutine that holds the mutex makes a step.\<close>

lemma holder_step:
  assumes st: "tstep t th g = Step th' g' evs new"
    and h: "holds (pc th)" and m: "mu g = Some t"
    and li: "lock_inv (pc th) g tr" and gl: "glob_inv g tr" and ti: "thr_inv g th"
  shows "holds (pc th') = (mu g' = Some t)
    \<and> (mu g' = Some t \<or> mu g' = None)
    \<and> list_all (\<lambda>n. \<not> holds (pc n) \<and> defer_Cancel n \<noteq> DeferRan) new
    \<and> lock_inv (if mu g' = Some t then pc th' else Idle) g' (evs @ tr)
    \<and> glob_inv g' (evs @ tr)
    \<and> thr_inv g' th'
    \<and> grows g g'"
  using st[symmetric] h m li gl ti
  by (cases "pc th";
      simp add: Unlock_def raise_locked_def handler_goroutine_def sync_defs glob_inv_def
        thr_inv_def grows_def split: if_splits)

lemma tstep_local:
  assumes st: "tstep t th g = Step th' g' evs new"
    and mx: "holds (pc th) = (mu g = Some t)"
    and li: "lock_inv (case mu g of None \<Rightarrow> Idle | Some k \<Rightarrow> if k = t then pc th else hp k) g tr"
    and gl: "glob_inv g tr" and ti: "thr_inv g th"
  shows "local_ok t hp g tr th' g' evs new"
proof -
  consider (idle) "pc th = Idle"
    | (lock) nxt where "pc th \<noteq> Idle" "\<not> holds (pc th)" "tstep t th g = Lock t nxt th g"
        "holds nxt" "\<And>g tr. lock_inv nxt g tr = lock_inv Idle g tr"
        "in_Cancel (pc th) \<Longrightarrow> in_Cancel nxt"
    | (hold) "holds (pc th)"
    by (cases "pc th") auto
  then show ?thesis
  proof cases
    case idle
    with st have nc: "next_cmd t th g = Step th' g' evs new" by simp
    from idle mx have nm: "mu g \<noteq> Some t" by simp
    note e = next_cmd_effect[OF nc idle]
    from e have q: "list_all quiet evs" and g': "g' = g \<or> g' = pop g" by simp_all
    from g' have mu: "mu g' = mu g" by auto
    from nm have hp: "(case mu g of None \<Rightarrow> Idle | Some k \<Rightarrow> if k = t then pc th' else hp k)
        = (case mu g of None \<Rightarrow> Idle | Some k \<Rightarrow> if k = t then pc th else hp k)"
      by (auto split: option.splits)
    from g' li have "lock_inv (case mu g of None \<Rightarrow> Idle | Some k \<Rightarrow> if k = t then pc th else hp k) g' tr"
      by (auto intro: lock_inv_pop)
    with q hp mu have 1: "lock_inv (case mu g' of None \<Rightarrow> Idle | Some k \<Rightarrow> if k = t then pc th' else hp k) g' (evs @ tr)"
      by (simp add: lock_inv_quiet)
    from g' gl q have 2: "glob_inv g' (evs @ tr)"
      by (auto simp: glob_inv_quiet intro: glob_inv_pop)
    from next_cmd_thr_inv[OF nc ti idle] g' have 3: "thr_inv g' th'"
      by (auto simp: thr_inv_pop)
    from g' have 4: "grows g g'" by auto
    from e nm mu 1 2 3 4 show ?thesis by (simp add: local_ok_def)
  next
    case lock
    with st have "Lock t nxt th g = Step th' g' evs new" by simp
    note e = Lock_effect[OF this]
    with lock li gl ti show ?thesis
      by (auto simp: local_ok_def thr_inv_def)
  next
    case hold
    with mx have m: "mu g = Some t" by simp
    with li have "lock_inv (pc th) g tr" by simp
    from holder_step[OF st hold m this gl ti] m show ?thesis
      by (auto simp: local_ok_def)
  qed
qed

lemma step_SomeE:
  assumes "step t s = Some s'"
  obtains (crash) "\<not> crashed s" "t < length (threads s)"
      "tstep t (threads s ! t) (gc s) = Crash"
      "s' = s\<lparr>crashed := True, trace := EvCrash t # trace s\<rparr>"
  | (move) th' g' evs new where "\<not> crashed s" "t < length (threads s)"
      "tstep t (threads s ! t) (gc s) = Step th' g' evs new"
      "s' = s\<lparr>gc := g', threads := (threads s)[t := th'] @ new, trace := evs @ trace s\<rparr>"
  using assms unfolding step_def
  by (cases "tstep t (threads s ! t) (gc s)") (auto split: if_splits)

lemma INV_crash:
  assumes "INV s"
  shows "INV (s\<lparr>crashed := True, trace := EvCrash t # trace s\<rparr>)"
  using assms
  by (simp add: INV_def mutex_def holder_pc_def lock_inv_quiet1 glob_inv_quiet1
      cong: option.case_cong)

lemma INV_move:
  assumes inv: "INV s" and lt: "t < length (threads s)"
    and ok: "local_ok t (\<lambda>k. pc (threads s ! k)) (gc s) (trace s) th' g' evs new"
  shows "INV (s\<lparr>gc := g', threads := (threads s)[t := th'] @ new, trace := evs @ trace s\<rparr>)"
proof -
  let ?ths = "(threads s)[t := th'] @ new"
  from inv have mx: "mutex s" and tis: "list_all (thr_inv (gc s)) (threads s)"
    by (simp_all add: INV_def)
  from ok have
    a: "holds (pc th') = (mu g' = Some t)" and
    b: "mu g' = mu (gc s) \<or> mu (gc s) = None \<and> mu g' = Some t \<or> mu (gc s) = Some t \<and> mu g' = None" and
    c: "list_all (\<lambda>n. \<not> holds (pc n) \<and> defer_Cancel n \<noteq> DeferRan) new" and
    d: "lock_inv (case mu g' of None \<Rightarrow> Idle | Some k \<Rightarrow> if k = t then pc th' else pc (threads s ! k)) g' (evs @ trace s)" and
    e: "glob_inv g' (evs @ trace s)" and
    f: "thr_inv g' th'" and
    g: "grows (gc s) g'"
    by (simp_all add: local_ok_def)
  have bound: "k < length (threads s)" if "mu g' = Some k" for k
    using that b mx lt by (auto simp: mutex_def split: option.splits)
  have old: "?ths ! u = (if u = t then th' else threads s ! u)" if "u < length (threads s)" for u
    using that by (simp add: nth_append nth_list_update)
  have new: "\<not> holds (pc (?ths ! u))" if "length (threads s) \<le> u" "u < length ?ths" for u
  proof -
    from that have "?ths ! u = new ! (u - length (threads s))" "u - length (threads s) < length new"
      by (simp_all add: nth_append)
    with c show ?thesis by (simp add: list_all_length)
  qed
  have 1: "holds (pc (?ths ! u)) = (mu g' = Some u)" if "u < length ?ths" for u
  proof (cases "u < length (threads s)")
    case True
    show ?thesis
    proof (cases "u = t")
      case True
      with old[OF lt] a show ?thesis by simp
    next
      case False
      with True mx have "holds (pc (threads s ! u)) = (mu (gc s) = Some u)"
        by (simp add: mutex_def)
      with False b old[OF True] show ?thesis by auto
    qed
  next
    case False
    with that new[of u] bound[of u] show ?thesis by auto
  qed
  have 2: "(case mu g' of None \<Rightarrow> Idle | Some k \<Rightarrow> pc (?ths ! k))
      = (case mu g' of None \<Rightarrow> Idle | Some k \<Rightarrow> if k = t then pc th' else pc (threads s ! k))"
    using bound old by (auto split: option.splits)
  have 3: "list_all (thr_inv g') ?ths"
  proof -
    have "thr_inv g' x" if "x \<in> set ((threads s)[t := th'])" for x
    proof -
      from that set_update_subset_insert[of "threads s" t th']
      have "x = th' \<or> x \<in> set (threads s)" by auto
      with f tis g show ?thesis by (auto simp: list_all_iff intro: thr_inv_grows)
    qed
    moreover have "thr_inv g' x" if "x \<in> set new" for x
      using that c by (auto simp: list_all_iff thr_inv_def)
    ultimately show ?thesis by (auto simp: list_all_iff)
  qed
  from 1 bound have "mutex (s\<lparr>gc := g', threads := ?ths, trace := evs @ trace s\<rparr>)"
    by (auto simp: mutex_def split: option.splits)
  with 2 3 d e show ?thesis
    by (simp add: INV_def holder_pc_def cong: option.case_cong)
qed

lemma step_INV:
  assumes inv: "INV s" and st: "step t s = Some s'"
  shows "INV s'"
  using st
proof (cases rule: step_SomeE)
  case crash
  with inv show ?thesis by (simp add: INV_crash)
next
  case (move th' g' evs new)
  from inv move(2) have mx: "holds (pc (threads s ! t)) = (mu (gc s) = Some t)"
    by (simp add: INV_def mutex_def)
  from inv have "lock_inv (holder_pc s) (gc s) (trace s)" by (simp add: INV_def)
  then have li: "lock_inv (case mu (gc s) of None \<Rightarrow> Idle
      | Some k \<Rightarrow> if k = t then pc (threads s ! t) else pc (threads s ! k)) (gc s) (trace s)"
    by (auto simp: holder_pc_def split: option.splits)
  from inv have gl: "glob_inv (gc s) (trace s)" by (simp add: INV_def)
  from inv move(2) have ti: "thr_inv (gc s) (threads s ! t)"
    by (simp add: INV_def list_all_length)
  from tstep_local[OF move(3) mx li gl ti] inv move show ?thesis
    by (simp add: INV_move)
qed

lemma exec_INV: "INV s \<Longrightarrow> INV (exec sched s)"
  by (induction sched arbitrary: s) (auto simp: step_INV split: option.splits)

lemma INV_run: "INV (run ps h sched)"
  by (simp add: run_def exec_INV INV_boot)


lemma INV_holder:
  assumes "INV s" and "t < length (threads s)" and "holds (pc (threads s ! t))"
  shows "mu (gc s) = Some t" and "lock_inv (pc (threads s ! t)) (gc s) (trace s)"
  using assms by (auto simp: INV_def mutex_def holder_pc_def)

lemmas run_simps = run_def boot_def step_def GoRace_def make_chan_def goroutine_def
  handler_goroutine_def Start_goroutine_def Lock_def Unlock_def raise_locked_def

subsection \<open>A method call that runs alone\<close>

lemma mu_None_id: "mu g = None \<Longrightarrow> g\<lparr>mu := None\<rparr> = g"
  by (cases g) simp

lemma mu_None_upd:
  "mu g = None \<Longrightarrow> g\<lparr>canceled := c, send := x, mu := None\<rparr> = g\<lparr>canceled := c, send := x\<rparr>"
  by (cases g) simp

lemma lock_inv_true_Cancels: "lock_inv p g tr \<Longrightarrow> true_Cancels tr \<le> 1"
  by (cases p) (auto simp: sync_defs split: if_splits)

lemma lock_inv_closed:
  "lock_inv p g tr \<Longrightarrow> (closed (send g) \<longrightarrow> canceled g) \<and> (p \<noteq> cancel_Close \<longrightarrow> canceled g = closed (send g))"
  by (cases p) (auto simp: sync_defs)

lemma INV_free: "INV s \<Longrightarrow> mu (gc s) = None \<Longrightarrow> lock_inv Idle (gc s) (trace s)"
  by (simp add: INV_def holder_pc_def)

lemma Cancel_first_run:
  assumes "t < length (threads s)" "\<not> crashed s" "pc (threads s ! t) = Idle"
    "todo (threads s ! t) = CallCancel # cs" "mu (gc s) = None"
    "\<not> canceled (gc s)" "\<not> closed (send (gc s))"
  shows "exec [t, t, t, t, t, t] s =
     s\<lparr>gc := (gc s)\<lparr>canceled := True, send := (send (gc s))\<lparr>closed := True\<rparr>\<rparr>,
       threads := (threads s)[t := (threads s ! t)\<lparr>todo := cs, pc := Idle\<rparr>],
       trace := EvRet t (RetCancel True) # EvClose t # EvSetCanceled t # trace s\<rparr>"
  using assms
  by (simp add: step_def Lock_def Unlock_def mu_None_upd)

lemma Cancel_again_run:
  assumes "t < length (threads s)" "\<not> crashed s" "pc (threads s ! t) = Idle"
    "todo (threads s ! t) = CallCancel # cs" "mu (gc s) = None" "canceled (gc s)"
  shows "exec [t, t, t, t] s =
     s\<lparr>threads := (threads s)[t := (threads s ! t)\<lparr>todo := cs, pc := Idle\<rparr>],
       trace := EvRet t (RetCancel False) # trace s\<rparr>"
  using assms
  by (simp add: step_def Lock_def Unlock_def mu_None_id)

lemma Send_canceled_run:
  assumes "t < length (threads s)" "\<not> crashed s" "pc (threads s ! t) = Idle"
    "todo (threads s ! t) = CallSend v # cs" "mu (gc s) = None" "canceled (gc s)"
  shows "exec [t, t, t, t] s =
     s\<lparr>threads := (threads s)[t := (threads s ! t)\<lparr>todo := cs, pc := Idle\<rparr>],
       trace := EvRet t RetSend # trace s\<rparr>"
  using assms
  by (simp add: step_def Lock_def Unlock_def mu_None_id)






lemma last_stored_stored: "last_stored tr = (case stored tr of [] \<Rightarrow> VNil | v # vs \<Rightarrow> v)"
  by (induction tr rule: last_stored.induct) simp_all

lemma LastResult_run:
  assumes "t < length (threads s)" "\<not> crashed s" "pc (threads s ! t) = Idle"
    "todo (threads s ! t) = CallLastResult # cs" "mu (gc s) = None"
  shows "exec [t, t, t, t] s =
     s\<lparr>threads := (threads s)[t := (threads s ! t)\<lparr>todo := cs, pc := Idle\<rparr>],
       trace := EvRet t (RetLastResult (lastResult (gc s))) # trace s\<rparr>"
  using assms
  by (simp add: step_def Lock_def Unlock_def mu_None_id)

lemma lock_inv_buf:
  "lock_inv p g tr \<Longrightarrow> (\<forall>v. p \<noteq> Send_Write v) \<Longrightarrow> buf (send g) = [] \<or> buf (send g) = [lastResult g]"
  by (cases p) (auto simp: sync_defs)

subsection \<open>What a step can change\<close>

lemma tstep_frame:
  assumes st: "tstep t th g = Step th' g' evs new"
  shows "(canceled g \<longrightarrow> canceled g')
    \<and> ((\<forall>v. pc th \<noteq> Send_Store v) \<longrightarrow> lastResult g' = lastResult g)"
proof (cases "pc th = Idle")
  case True
  with st have "next_cmd t th g = Step th' g' evs new" by simp
  from next_cmd_effect[OF this True] show ?thesis by (auto simp: pop_def)
next
  case False
  with st[symmetric] show ?thesis
    by (cases "pc th"; simp add: Lock_def Unlock_def raise_locked_def split: if_splits)
qed

lemma step_frame:
  assumes "step t s = Some s'"
  shows "(canceled (gc s) \<longrightarrow> canceled (gc s'))
    \<and> ((\<forall>v. pc (threads s ! t) \<noteq> Send_Store v) \<longrightarrow> lastResult (gc s') = lastResult (gc s))"
  using assms
proof (cases rule: step_SomeE)
  case crash
  then show ?thesis by simp
next
  case (move th' g' evs new)
  with tstep_frame[OF move(3)] show ?thesis by simp
qed

lemma step_canceled_lastResult:
  assumes inv: "INV s" and c: "canceled (gc s)" and st: "step t s = Some s'"
  shows "lastResult (gc s') = lastResult (gc s) \<and> canceled (gc s')"
proof -
  from st have lt: "t < length (threads s)" by (auto simp: step_def split: if_splits)
  have "pc (threads s ! t) \<noteq> Send_Store v" for v
    using INV_holder(2)[OF inv lt] c by auto
  with step_frame[OF st] c show ?thesis by simp
qed

lemma exec_canceled_lastResult:
  "INV s \<Longrightarrow> canceled (gc s) \<Longrightarrow>
     lastResult (gc (exec sched s)) = lastResult (gc s) \<and> canceled (gc (exec sched s))"
proof (induction sched arbitrary: s)
  case Nil
  then show ?case by simp
next
  case (Cons t ts)
  show ?case
  proof (cases "step t s")
    case None
    with Cons show ?thesis by simp
  next
    case (Some s')
    from step_canceled_lastResult[OF Cons.prems Some] step_INV[OF Cons.prems(1) Some]
      Cons.IH[of s'] Some
    show ?thesis by simp
  qed
qed

lemma tstep_started:
  assumes st: "tstep t th g = Step th' g' evs new" and "pc th \<noteq> Start_Set"
  shows "started g' = started g"
proof (cases "pc th = Idle")
  case True
  with st have "next_cmd t th g = Step th' g' evs new" by simp
  from next_cmd_effect[OF this True] show ?thesis by (auto simp: pop_def)
next
  case False
  with st[symmetric] assms(2) show ?thesis
    by (cases "pc th"; simp add: Lock_def Unlock_def raise_locked_def split: if_splits)
qed

lemma step_not_started:
  assumes inv: "INV s" and c: "canceled (gc s)" and n: "\<not> started (gc s)"
    and st: "step t s = Some s'"
  shows "\<not> started (gc s')"
  using st
proof (cases rule: step_SomeE)
  case crash
  with n show ?thesis by simp
next
  case (move th' g' evs new)
  have "pc (threads s ! t) \<noteq> Start_Set"
    using INV_holder(2)[OF inv move(2)] c by auto
  from tstep_started[OF move(3) this] move(4) n show ?thesis by simp
qed

lemma exec_not_started:
  "INV s \<Longrightarrow> canceled (gc s) \<Longrightarrow> \<not> started (gc s) \<Longrightarrow> \<not> started (gc (exec sched s))"
proof (induction sched arbitrary: s)
  case Nil
  then show ?case by simp
next
  case (Cons t ts)
  show ?case
  proof (cases "step t s")
    case None
    with Cons show ?thesis by simp
  next
    case (Some s')
    from step_frame[OF Some] Cons.prems(2) have "canceled (gc s')" by simp
    with Cons.IH[OF step_INV[OF Cons.prems(1) Some] _ step_not_started[OF Cons.prems Some]] Some
    show ?thesis by simp
  qed
qed

lemma lock_inv_not_started: "lock_inv p g tr \<Longrightarrow> \<not> started g \<Longrightarrow> launches tr = 0"
  by (cases p) (auto simp: sync_defs)

subsection \<open>A send blocked on the full channel\<close>











subsection \<open>A panic that reaches the top of a goroutine\<close>












section \<open>The claims\<close>




text \<open>
  C2. In every execution, whatever the programs of the goroutines, the handler and the
  schedule: no value is put on the result channel after \<open>canceled\<close> has been set (the log
  has no channel send later than a \<open>gc.canceled = true\<close>); a goroutine that is about to
  execute \<open>gc.send <- result\<close>, blocked there or not, holds the mutex and sees the task not
  cancelled and the channel open; and no method ever panics (a send on a closed channel
  or a second close would take the goroutine to \<open>Panic_Unlock\<close>).
\<close>

theorem Send_never_after_cancel:
  assumes "s = run ps h sched"
  shows "sends_precede_cancel (trace s)
    \<and> (\<forall>t v. t < length (threads s) \<and> pc (threads s ! t) = Send_Write v
          \<longrightarrow> mu (gc s) = Some t \<and> \<not> canceled (gc s) \<and> \<not> closed (send (gc s)))
    \<and> (\<forall>t. t < length (threads s) \<longrightarrow> pc (threads s ! t) \<noteq> Panic_Unlock)"
proof -
  have inv: "INV s" by (simp add: assms INV_run)
  then have 1: "sends_precede_cancel (trace s)" by (simp add: INV_def glob_inv_def)
  have 2: "mu (gc s) = Some t \<and> \<not> canceled (gc s) \<and> \<not> closed (send (gc s))"
    if "t < length (threads s)" "pc (threads s ! t) = Send_Write v" for t v
    using INV_holder[OF inv that(1)] that(2) by simp
  have 3: "pc (threads s ! t) \<noteq> Panic_Unlock" if "t < length (threads s)" for t
    using INV_holder(2)[OF inv that] by auto
  from 1 2 3 show ?thesis by blast
qed

text \<open>Two sends with no consumer and a concurrent \<open>Cancel\<close>: the second send is blocked on
  the full channel with the mutex held, the task is not cancelled.\<close>

theorem Send_never_after_cancel_witness:
  "pc (threads (run [[CallSend (VInt 1), CallSend (VInt 2)], [CallCancel]] []
         [0,0,0,0,0,0,0,0,0,0,1,1]) ! 0) = Send_Write (VInt 2)
   \<and> mu (gc (run [[CallSend (VInt 1), CallSend (VInt 2)], [CallCancel]] []
         [0,0,0,0,0,0,0,0,0,0,1,1])) = Some 0
   \<and> \<not> canceled (gc (run [[CallSend (VInt 1), CallSend (VInt 2)], [CallCancel]] []
         [0,0,0,0,0,0,0,0,0,0,1,1]))"
  using Send_never_after_cancel[OF refl,
      where ps = "[[CallSend (VInt 1), CallSend (VInt 2)], [CallCancel]]" and h = "[]"
        and sched = "[0,0,0,0,0,0,0,0,0,0,1,1]"]
  by (simp add: run_simps)


text \<open>
  C3. \<open>Cancel\<close> is idempotent. In every reachable state: \<open>close(gc.send)\<close> has been executed
  once if the channel is closed and never otherwise, so never twice; at most one call of
  \<open>Cancel\<close> has returned true; a closed channel implies \<open>canceled\<close>, and \<open>canceled\<close> and
  closed agree except while a goroutine stands between \<open>gc.canceled = true\<close> and
  \<open>close(gc.send)\<close>, which it does with the mutex held, so that no reader of \<open>canceled\<close>
  can see the difference. A call of \<open>Cancel\<close> that finds the mutex free and runs to its
  return: on a task not yet cancelled it sets \<open>canceled\<close>, closes the channel, returns true
  and changes nothing else; on a cancelled task it returns false and changes no field of
  the task.
\<close>

theorem Cancel_idempotent:
  assumes "s = run ps h sched"
  shows "closes (trace s) = (if closed (send (gc s)) then 1 else 0)
    \<and> true_Cancels (trace s) \<le> 1
    \<and> (closed (send (gc s)) \<longrightarrow> canceled (gc s))
    \<and> (holder_pc s \<noteq> cancel_Close \<longrightarrow> canceled (gc s) = closed (send (gc s)))
    \<and> (t < length (threads s) \<and> \<not> crashed s \<and> mu (gc s) = None
          \<and> pc (threads s ! t) = Idle \<and> todo (threads s ! t) = CallCancel # cs \<longrightarrow>
        (if canceled (gc s)
         then exec [t, t, t, t] s =
           s\<lparr>threads := (threads s)[t := (threads s ! t)\<lparr>todo := cs, pc := Idle\<rparr>],
             trace := EvRet t (RetCancel False) # trace s\<rparr>
         else exec [t, t, t, t, t, t] s =
           s\<lparr>gc := (gc s)\<lparr>canceled := True, send := (send (gc s))\<lparr>closed := True\<rparr>\<rparr>,
             threads := (threads s)[t := (threads s ! t)\<lparr>todo := cs, pc := Idle\<rparr>],
             trace := EvRet t (RetCancel True) # EvClose t # EvSetCanceled t # trace s\<rparr>))"
proof -
  have inv: "INV s" by (simp add: assms INV_run)
  then have li: "lock_inv (holder_pc s) (gc s) (trace s)" and gl: "glob_inv (gc s) (trace s)"
    by (simp_all add: INV_def)
  from gl have 1: "closes (trace s) = (if closed (send (gc s)) then 1 else 0)"
    by (simp add: glob_inv_def)
  note 2 = lock_inv_true_Cancels[OF li]
  note 3 = lock_inv_closed[OF li]
  have 4: "if canceled (gc s)
         then exec [t, t, t, t] s =
           s\<lparr>threads := (threads s)[t := (threads s ! t)\<lparr>todo := cs, pc := Idle\<rparr>],
             trace := EvRet t (RetCancel False) # trace s\<rparr>
         else exec [t, t, t, t, t, t] s =
           s\<lparr>gc := (gc s)\<lparr>canceled := True, send := (send (gc s))\<lparr>closed := True\<rparr>\<rparr>,
             threads := (threads s)[t := (threads s ! t)\<lparr>todo := cs, pc := Idle\<rparr>],
             trace := EvRet t (RetCancel True) # EvClose t # EvSetCanceled t # trace s\<rparr>"
    if h: "t < length (threads s)" "\<not> crashed s" "mu (gc s) = None"
      "pc (threads s ! t) = Idle" "todo (threads s ! t) = CallCancel # cs"
  proof (cases "canceled (gc s)")
    case True
    with Cancel_again_run[OF h(1,2,4,5,3)] show ?thesis by simp
  next
    case False
    from INV_free[OF inv h(3)] False have "\<not> closed (send (gc s))" by (simp add: sync_defs)
    with False Cancel_first_run[OF h(1,2,4,5,3)] show ?thesis by simp
  qed
  from 1 2 3 4 show ?thesis by blast
qed

text \<open>A goroutine that calls \<open>Cancel\<close> twice on a fresh task: the first call returns true
  and closes the channel, the second returns false and leaves the task as it was.\<close>

theorem Cancel_idempotent_witness:
  "exec [0, 0, 0, 0, 0, 0] (run [[CallCancel, CallCancel]] [] []) =
     (run [[CallCancel, CallCancel]] [] [])
       \<lparr>gc := (GoRace [])\<lparr>canceled := True, send := (make_chan 1)\<lparr>closed := True\<rparr>\<rparr>,
        threads := [\<lparr>pc = Idle, todo = [CallCancel], defer_Cancel = NoDefer, panicking = False\<rparr>],
        trace := [EvRet 0 (RetCancel True), EvClose 0, EvSetCanceled 0]\<rparr>
   \<and> trace (exec [0, 0, 0, 0] (run [[CallCancel, CallCancel]] [] [0, 0, 0, 0, 0, 0])) =
       [EvRet 0 (RetCancel False), EvRet 0 (RetCancel True), EvClose 0, EvSetCanceled 0]
   \<and> gc (exec [0, 0, 0, 0] (run [[CallCancel, CallCancel]] [] [0, 0, 0, 0, 0, 0])) =
       gc (run [[CallCancel, CallCancel]] [] [0, 0, 0, 0, 0, 0])
   \<and> closes (trace (run [[CallCancel, CallCancel]] [] [0, 0, 0, 0, 0, 0, 0, 0, 0, 0])) = 1"
  using Cancel_idempotent[OF refl, where ps = "[[CallCancel, CallCancel]]" and h = "[]"
      and sched = "[]" and t = 0 and cs = "[CallCancel]"]
    Cancel_idempotent[OF refl, where ps = "[[CallCancel, CallCancel]]" and h = "[]"
      and sched = "[0, 0, 0, 0, 0, 0]" and t = 0 and cs = "[]"]
    Cancel_idempotent[OF refl, where ps = "[[CallCancel, CallCancel]]" and h = "[]"
      and sched = "[0, 0, 0, 0, 0, 0, 0, 0, 0, 0]" and t = 0 and cs = "[]"]
  by (simp add: run_simps)


text \<open>
  C4. \<open>Send(v)\<close> on a cancelled task is a silent no-op, for every value \<open>v\<close>. In every
  reachable state in which the task is cancelled, no goroutine stands at
  \<open>gc.lastResult = result\<close> or at \<open>gc.send <- result\<close>: a \<open>Send\<close> that checks \<open>canceled\<close> after
  the cancellation neither stores nor touches the channel, so it cannot block on it. And a
  call \<open>Send(v)\<close> that finds the mutex free and runs to its return leaves every field of
  the task as it was (\<open>lastResult\<close> and the channel included) and logs its return only.
\<close>

theorem Send_after_Cancel_noop:
  assumes "s = run ps h sched" and "canceled (gc s)" and "t < length (threads s)"
  shows "pc (threads s ! t) \<noteq> Send_Store v \<and> pc (threads s ! t) \<noteq> Send_Write v
    \<and> (\<not> crashed s \<and> mu (gc s) = None \<and> pc (threads s ! t) = Idle
          \<and> todo (threads s ! t) = CallSend v # cs \<longrightarrow>
        exec [t, t, t, t] s =
          s\<lparr>threads := (threads s)[t := (threads s ! t)\<lparr>todo := cs, pc := Idle\<rparr>],
            trace := EvRet t RetSend # trace s\<rparr>)"
proof -
  have inv: "INV s" by (simp add: assms INV_run)
  have "\<not> canceled (gc s)" if "pc (threads s ! t) = Send_Store v \<or> pc (threads s ! t) = Send_Write v"
    using INV_holder(2)[OF inv assms(3)] that by auto
  with assms(2) have 1: "pc (threads s ! t) \<noteq> Send_Store v \<and> pc (threads s ! t) \<noteq> Send_Write v"
    by blast
  from assms(2,3) Send_canceled_run[of t s v cs] 1 show ?thesis by blast
qed

text \<open>\<open>Cancel\<close>, then \<open>Send(7)\<close>: the send returns, \<open>lastResult\<close> is still nil.\<close>

theorem Send_after_Cancel_noop_witness:
  "canceled (gc (run [[CallCancel, CallSend (VInt 7)]] [] [0, 0, 0, 0, 0, 0]))
   \<and> exec [0, 0, 0, 0] (run [[CallCancel, CallSend (VInt 7)]] [] [0, 0, 0, 0, 0, 0]) =
       (run [[CallCancel, CallSend (VInt 7)]] [] [0, 0, 0, 0, 0, 0])
         \<lparr>threads := [\<lparr>pc = Idle, todo = [], defer_Cancel = NoDefer, panicking = False\<rparr>],
          trace := [EvRet 0 RetSend, EvRet 0 (RetCancel True), EvClose 0, EvSetCanceled 0]\<rparr>
   \<and> lastResult (gc (exec [0, 0, 0, 0] (run [[CallCancel, CallSend (VInt 7)]] [] [0, 0, 0, 0, 0, 0])))
       = VNil"
  using Send_after_Cancel_noop[OF refl, where ps = "[[CallCancel, CallSend (VInt 7)]]"
      and h = "[]" and sched = "[0, 0, 0, 0, 0, 0]" and t = 0 and v = "VInt 7" and cs = "[]"]
  by (simp add: run_simps)




text \<open>
  C6. \<open>Cancel()\<close> on a fresh task, then \<open>Start\<close>, a receive and \<open>LastResult()\<close>, for every
  handler: the one goroutine runs to its end; \<open>Cancel\<close> returned true; \<open>Start\<close> launched
  nothing (the process still has one goroutine, \<open>started\<close> is false, the log has no
  launch); the receive returned at once from the closed channel with no value; and
  \<open>LastResult\<close> returned nil. With any number of goroutines: from a reachable state in which
  the task is cancelled and not started, along every schedule \<open>started\<close> stays false, the
  handler is never launched and \<open>lastResult\<close> keeps its value; and the channel is closed
  whenever the mutex is free.
\<close>

theorem Cancel_before_Start:
  assumes "s = run ps h sched"
  shows "run [[CallCancel, CallStart, Recv, CallLastResult]] h
       [0, 0, 0, 0, 0, 0,  0, 0, 0, 0,  0,  0, 0, 0, 0] =
     \<lparr>gc = (GoRace h)\<lparr>canceled := True, send := (make_chan 1)\<lparr>closed := True\<rparr>\<rparr>,
      threads = [goroutine []],
      crashed = False,
      trace = [EvRet 0 (RetLastResult VNil), EvRet 0 (RetRecv VNil False), EvRet 0 RetStart,
        EvRet 0 (RetCancel True), EvClose 0, EvSetCanceled 0]\<rparr>
   \<and> step 0 (run [[CallCancel, CallStart, Recv, CallLastResult]] h
       [0, 0, 0, 0, 0, 0,  0, 0, 0, 0,  0,  0, 0, 0, 0]) = None
   \<and> (canceled (gc s) \<and> \<not> started (gc s) \<longrightarrow>
         \<not> started (gc (exec sched' s)) \<and> launches (trace (exec sched' s)) = 0
         \<and> lastResult (gc (exec sched' s)) = lastResult (gc s)
         \<and> (mu (gc s) = None \<longrightarrow> closed (send (gc s))))"
proof -
  have inv: "INV s" by (simp add: assms INV_run)
  have 1: "\<not> started (gc (exec sched' s)) \<and> launches (trace (exec sched' s)) = 0
         \<and> lastResult (gc (exec sched' s)) = lastResult (gc s)
         \<and> (mu (gc s) = None \<longrightarrow> closed (send (gc s)))"
    if c: "canceled (gc s)" and n: "\<not> started (gc s)"
  proof -
    note a = exec_not_started[OF inv c n, of sched']
    from exec_INV[OF inv, of sched'] have "lock_inv (holder_pc (exec sched' s))
        (gc (exec sched' s)) (trace (exec sched' s))"
      by (simp add: INV_def)
    from lock_inv_not_started[OF this a] have b: "launches (trace (exec sched' s)) = 0" .
    have d: "closed (send (gc s))" if "mu (gc s) = None"
      using INV_free[OF inv that] c by (simp add: sync_defs)
    from a b d exec_canceled_lastResult[OF inv c, of sched'] show ?thesis by simp
  qed
  have 2: "run [[CallCancel, CallStart, Recv, CallLastResult]] h
       [0, 0, 0, 0, 0, 0,  0, 0, 0, 0,  0,  0, 0, 0, 0] =
     \<lparr>gc = (GoRace h)\<lparr>canceled := True, send := (make_chan 1)\<lparr>closed := True\<rparr>\<rparr>,
      threads = [goroutine []],
      crashed = False,
      trace = [EvRet 0 (RetLastResult VNil), EvRet 0 (RetRecv VNil False), EvRet 0 RetStart,
        EvRet 0 (RetCancel True), EvClose 0, EvSetCanceled 0]\<rparr>"
    by (simp add: run_simps)
  have 3: "step 0 (run [[CallCancel, CallStart, Recv, CallLastResult]] h
       [0, 0, 0, 0, 0, 0,  0, 0, 0, 0,  0,  0, 0, 0, 0]) = None"
    unfolding 2 by (simp add: step_def goroutine_def)
  from 1 2 3 show ?thesis by blast
qed

text \<open>\<open>Cancel\<close>, then two goroutines racing through \<open>Start\<close>: no launch, \<open>LastResult\<close> is nil.\<close>

theorem Cancel_before_Start_witness:
  "canceled (gc (run [[CallCancel, CallStart], [CallStart, CallLastResult]] [CallSend (VInt 1)]
       [0, 0, 0, 0, 0, 0]))
   \<and> \<not> started (gc (run [[CallCancel, CallStart], [CallStart, CallLastResult]] [CallSend (VInt 1)]
       [0, 0, 0, 0, 0, 0]))
   \<and> trace (exec [1, 0, 1, 1, 0, 1, 0, 0, 0, 1, 1, 1, 1]
       (run [[CallCancel, CallStart], [CallStart, CallLastResult]] [CallSend (VInt 1)]
         [0, 0, 0, 0, 0, 0])) =
       [EvRet 1 (RetLastResult VNil), EvRet 0 RetStart, EvRet 1 RetStart,
        EvRet 0 (RetCancel True), EvClose 0, EvSetCanceled 0]
   \<and> launches (trace (exec [1, 0, 1, 1, 0, 1, 0, 0, 0, 1, 1, 1, 1]
       (run [[CallCancel, CallStart], [CallStart, CallLastResult]] [CallSend (VInt 1)]
         [0, 0, 0, 0, 0, 0]))) = 0"
  using Cancel_before_Start[OF refl,
      where ps = "[[CallCancel, CallStart], [CallStart, CallLastResult]]"
        and h = "[CallSend (VInt 1)]" and sched = "[0, 0, 0, 0, 0, 0]"
        and sched' = "[1, 0, 1, 1, 0, 1, 0, 0, 0, 1, 1, 1, 1]"]
  by (simp add: run_simps)

text \<open>
  C7. In \<open>Send\<close>, \<open>lastResult\<close> is assigned before the value goes to the channel. In every
  reachable state: every value that was put on the channel was the value of \<open>lastResult\<close>
  at that moment; a goroutine about to execute \<open>gc.send <- result\<close> (blocked or not) has
  already stored its value, \<open>lastResult\<close> is that value; and unless the holder of the mutex
  stands at that statement, the channel is empty or holds exactly \<open>lastResult\<close>. So a
  goroutine reading \<open>lastResult\<close> inside \<open>LastResult\<close> sees the value still in the channel, and
  while a send is blocked behind an undrained value \<open>lastResult\<close> is the later of the two.
\<close>

theorem lastResult_before_channel:
  assumes "s = run ps h sched"
  shows "stores_precede_sends (trace s)
    \<and> (t < length (threads s) \<and> pc (threads s ! t) = Send_Write v \<longrightarrow> lastResult (gc s) = v)
    \<and> ((\<forall>w. holder_pc s \<noteq> Send_Write w) \<longrightarrow>
          buf (send (gc s)) = [] \<or> buf (send (gc s)) = [lastResult (gc s)])
    \<and> (t < length (threads s) \<and> pc (threads s ! t) = LastResult_Read \<longrightarrow>
          buf (send (gc s)) = [] \<or> buf (send (gc s)) = [lastResult (gc s)])"
proof -
  have inv: "INV s" by (simp add: assms INV_run)
  then have li: "lock_inv (holder_pc s) (gc s) (trace s)" and gl: "glob_inv (gc s) (trace s)"
    by (simp_all add: INV_def)
  from gl have 1: "stores_precede_sends (trace s)" by (simp add: glob_inv_def)
  have 2: "lastResult (gc s) = v" if "t < length (threads s)" "pc (threads s ! t) = Send_Write v"
    using INV_holder(2)[OF inv that(1)] that(2) by simp
  have 3: "buf (send (gc s)) = [] \<or> buf (send (gc s)) = [lastResult (gc s)]"
    if "\<forall>w. holder_pc s \<noteq> Send_Write w"
    using lock_inv_buf[OF li that] .
  have 4: "buf (send (gc s)) = [] \<or> buf (send (gc s)) = [lastResult (gc s)]"
    if "t < length (threads s)" "pc (threads s ! t) = LastResult_Read"
    using INV_holder(2)[OF inv that(1)] that(2) by (simp add: sync_defs)
  from 1 2 3 4 show ?thesis by blast
qed

text \<open>Two sends with no consumer: the second is blocked with \<open>lastResult = 2\<close> while the
  channel still holds 1. A reader that enters \<open>LastResult\<close> after the first send sees 1, the
  value in the channel.\<close>

theorem lastResult_before_channel_witness:
  "pc (threads (run [[CallSend (VInt 1), CallSend (VInt 2)], [CallLastResult]] []
        [0, 0, 0, 0, 0, 0, 0, 0, 0, 0]) ! 0) = Send_Write (VInt 2)
   \<and> lastResult (gc (run [[CallSend (VInt 1), CallSend (VInt 2)], [CallLastResult]] []
        [0, 0, 0, 0, 0, 0, 0, 0, 0, 0])) = VInt 2
   \<and> buf (send (gc (run [[CallSend (VInt 1), CallSend (VInt 2)], [CallLastResult]] []
        [0, 0, 0, 0, 0, 0, 0, 0, 0, 0]))) = [VInt 1]
   \<and> pc (threads (run [[CallSend (VInt 1), CallSend (VInt 2)], [CallLastResult]] []
        [0, 0, 0, 0, 0, 0, 1, 1]) ! 1) = LastResult_Read
   \<and> buf (send (gc (run [[CallSend (VInt 1), CallSend (VInt 2)], [CallLastResult]] []
        [0, 0, 0, 0, 0, 0, 1, 1]))) = [VInt 1]
   \<and> lastResult (gc (run [[CallSend (VInt 1), CallSend (VInt 2)], [CallLastResult]] []
        [0, 0, 0, 0, 0, 0, 1, 1])) = VInt 1"
  using lastResult_before_channel[OF refl,
      where ps = "[[CallSend (VInt 1), CallSend (VInt 2)], [CallLastResult]]" and h = "[]"
        and sched = "[0, 0, 0, 0, 0, 0, 0, 0, 0, 0]" and t = 0 and v = "VInt 2"]
    lastResult_before_channel[OF refl,
      where ps = "[[CallSend (VInt 1), CallSend (VInt 2)], [CallLastResult]]" and h = "[]"
        and sched = "[0, 0, 0, 0, 0, 0, 1, 1]" and t = 1 and v = "VInt 2"]
  by (simp add: run_simps holder_pc_def)

text \<open>
  C8. \<open>Cancel\<close> never changes \<open>lastResult\<close>. From a reachable state, the only step that changes
  \<open>lastResult\<close> is the assignment on line 134 of \<open>Send\<close>: every other step of every
  goroutine, those of \<open>Cancel\<close> among them, leaves it as it is. And once the task is
  cancelled it stays cancelled and \<open>lastResult\<close> keeps its value along every schedule.
\<close>

theorem Cancel_keeps_lastResult:
  assumes "s = run ps h sched"
  shows "(step t s = Some s' \<and> (\<forall>v. pc (threads s ! t) \<noteq> Send_Store v) \<longrightarrow>
          lastResult (gc s') = lastResult (gc s))
    \<and> (canceled (gc s) \<longrightarrow>
          lastResult (gc (exec sched' s)) = lastResult (gc s) \<and> canceled (gc (exec sched' s)))"
proof -
  have inv: "INV s" by (simp add: assms INV_run)
  from step_frame[of t s s'] exec_canceled_lastResult[OF inv, of sched'] show ?thesis
    by blast
qed

text \<open>\<open>Send(1)\<close>, then \<open>Cancel\<close>: the step \<open>gc.canceled = true\<close> leaves \<open>lastResult = 1\<close>; afterwards
  a consumer receives and another goroutine calls \<open>Send(5)\<close>, and \<open>lastResult\<close> is still 1.\<close>

theorem Cancel_keeps_lastResult_witness:
  "pc (threads (run [[CallSend (VInt 1), CallCancel, CallLastResult], [Recv, CallSend (VInt 5)]] []
        [0, 0, 0, 0, 0, 0, 0, 0, 0]) ! 0) = cancel_Set
   \<and> lastResult (gc (run [[CallSend (VInt 1), CallCancel, CallLastResult], [Recv, CallSend (VInt 5)]] []
        [0, 0, 0, 0, 0, 0, 0, 0, 0, 0])) = VInt 1
   \<and> canceled (gc (run [[CallSend (VInt 1), CallCancel, CallLastResult], [Recv, CallSend (VInt 5)]] []
        [0, 0, 0, 0, 0, 0, 0, 0, 0, 0]))
   \<and> lastResult (gc (exec [0, 0, 1, 1, 1, 1, 1, 0, 0, 0, 0]
        (run [[CallSend (VInt 1), CallCancel, CallLastResult], [Recv, CallSend (VInt 5)]] []
          [0, 0, 0, 0, 0, 0, 0, 0, 0, 0]))) = VInt 1"
  using Cancel_keeps_lastResult[OF refl,
      where ps = "[[CallSend (VInt 1), CallCancel, CallLastResult], [Recv, CallSend (VInt 5)]]"
        and h = "[]" and sched = "[0, 0, 0, 0, 0, 0, 0, 0, 0]" and t = 0
        and s' = "run [[CallSend (VInt 1), CallCancel, CallLastResult], [Recv, CallSend (VInt 5)]] []
          [0, 0, 0, 0, 0, 0, 0, 0, 0, 0]" and sched' = "[]"]
    Cancel_keeps_lastResult[OF refl,
      where ps = "[[CallSend (VInt 1), CallCancel, CallLastResult], [Recv, CallSend (VInt 5)]]"
        and h = "[]" and sched = "[0, 0, 0, 0, 0, 0, 0, 0, 0, 0]" and t = 0
        and s' = "run [[CallSend (VInt 1), CallCancel, CallLastResult], [Recv, CallSend (VInt 5)]] []
          [0, 0, 0, 0, 0, 0, 0, 0, 0, 0, 0]" and sched' = "[0, 0, 1, 1, 1, 1, 1, 0, 0, 0, 0]"]
  by (simp add: run_simps)




text \<open>
  C10. The absence sentinel is the nil interface. \<open>GoRace\<close> leaves \<open>lastResult\<close> nil; in every
  reachable state \<open>lastResult\<close> is the value most recently accepted by a \<open>Send\<close>, and nil
  when no \<open>Send\<close> has been accepted; it is nil as well when the most recent accepted value
  is nil, so the two cases cannot be told apart; and \<open>LastResult()\<close>, run alone with the mutex
  free, returns \<open>lastResult\<close> and changes no field of the task.
\<close>

theorem LastResult_nil_sentinel:
  assumes "s = run ps h sched"
  shows "lastResult (GoRace h) = VNil
    \<and> lastResult (gc s) = last_stored (trace s)
    \<and> (stored (trace s) = [] \<or> stored (trace s) = VNil # vs \<longrightarrow> lastResult (gc s) = VNil)
    \<and> (t < length (threads s) \<and> \<not> crashed s \<and> mu (gc s) = None \<and> pc (threads s ! t) = Idle
          \<and> todo (threads s ! t) = CallLastResult # cs \<longrightarrow>
        exec [t, t, t, t] s =
          s\<lparr>threads := (threads s)[t := (threads s ! t)\<lparr>todo := cs, pc := Idle\<rparr>],
            trace := EvRet t (RetLastResult (lastResult (gc s))) # trace s\<rparr>)"
proof -
  have "INV s" by (simp add: assms INV_run)
  then have 1: "lastResult (gc s) = last_stored (trace s)"
    by (simp add: INV_def glob_inv_def)
  then have 2: "stored (trace s) = [] \<or> stored (trace s) = VNil # vs \<longrightarrow> lastResult (gc s) = VNil"
    by (auto simp: last_stored_stored)
  from 1 2 LastResult_run[of t s cs] show ?thesis by (simp add: GoRace_def)
qed

text \<open>\<open>LastResult\<close> on a fresh task, and after \<open>Send(nil)\<close> has succeeded: nil both times.\<close>

theorem LastResult_nil_sentinel_witness:
  "stored (trace (run [[CallLastResult, CallSend VNil, CallLastResult]] [] [])) = []
   \<and> trace (exec [0, 0, 0, 0] (run [[CallLastResult, CallSend VNil, CallLastResult]] [] [])) =
       [EvRet 0 (RetLastResult VNil)]
   \<and> stored (trace (run [[CallLastResult, CallSend VNil, CallLastResult]] []
         [0, 0, 0, 0, 0, 0, 0, 0, 0, 0])) = [VNil]
   \<and> trace (exec [0, 0, 0, 0] (run [[CallLastResult, CallSend VNil, CallLastResult]] []
         [0, 0, 0, 0, 0, 0, 0, 0, 0, 0])) =
       [EvRet 0 (RetLastResult VNil), EvRet 0 RetSend, EvChanSend 0 VNil, EvStore 0 VNil,
        EvRet 0 (RetLastResult VNil)]"
  using LastResult_nil_sentinel[OF refl,
      where ps = "[[CallLastResult, CallSend VNil, CallLastResult]]" and h = "[]" and sched = "[]"
        and vs = "[]" and t = 0 and cs = "[CallSend VNil, CallLastResult]"]
    LastResult_nil_sentinel[OF refl,
      where ps = "[[CallLastResult, CallSend VNil, CallLastResult]]" and h = "[]"
        and sched = "[0, 0, 0, 0, 0, 0, 0, 0, 0, 0]" and vs = "[]" and t = 0 and cs = "[]"]
  by (simp add: run_simps)


end
